theory Spec2Isabelle
  imports
    Complex_Main
    "HOL-Library.Multiset"
    "HOL-Library.Char_ord"
    "HOL-Library.List_Lexorder"
begin

section \<open>The flight table\<close>

text \<open>
  \<^verbatim>\<open>load_data\<close> reads the CSV file into a data frame and converts the column
  \<^verbatim>\<open>Departure Date\<close> with \<^verbatim>\<open>pd.to_datetime\<close>. A data frame is modelled as the list
  of its rows in index order. A \<^verbatim>\<open>datetime64[ns]\<close> value is the number of nanoseconds
  since the epoch; \<^verbatim>\<open>.dt.date\<close> keeps the calendar day of it. Every row has a
  departure date, as the data model of the specification requires. The passenger
  counts are integers and make int64 columns; the two loads are numeric and are taken
  as float64 columns. \<open>cell\<close> reads a
  numeric cell as the real number it denotes. The one special value of float64 that
  the dashboard's statistics can produce, NaN, is the value \<open>None\<close> of \<open>real option\<close>.
\<close>

type_synonym timestamp = int

definition ns_per_day :: int where
  "ns_per_day = 86400000000000"

definition dt_date :: "timestamp \<Rightarrow> int" where
  "dt_date t = t div ns_per_day"

record flight =
  departure_date :: timestamp
  flight_number :: string
  segment :: string
  adults :: int
  infants :: int
  total_booked :: int
  no_shows :: int
  flown_load :: real
  booked_load :: real

type_synonym frame = "flight list"

datatype column = Adults | Infants | Total_Booked | No_Shows | Flown_Load | Booked_Load

fun cell :: "column \<Rightarrow> flight \<Rightarrow> real" where
  "cell Adults r = of_int (adults r)"
| "cell Infants r = of_int (infants r)"
| "cell Total_Booked r = of_int (total_booked r)"
| "cell No_Shows r = of_int (no_shows r)"
| "cell Flown_Load r = flown_load r"
| "cell Booked_Load r = booked_load r"

text \<open>The int64 columns, each with the field it reads; the float64 columns have none.\<close>

fun int_column :: "column \<Rightarrow> (flight \<Rightarrow> int) option" where
  "int_column Adults = Some adults"
| "int_column Infants = Some infants"
| "int_column Total_Booked = Some total_booked"
| "int_column No_Shows = Some no_shows"
| "int_column Flown_Load = None"
| "int_column Booked_Load = None"

section \<open>Machine arithmetic of the columns\<close>

text \<open>
  An int64 addition keeps the low 64 bits of the sum, read as a signed number. A
  float64 addition rounds the exact sum to the nearest number with 53 significant
  bits, a tie going to the even significand. The bounds of the float64 exponent
  (overflow to infinity, subnormal numbers) are not modelled.
\<close>

definition wrap_int64 :: "int \<Rightarrow> int" where
  "wrap_int64 n = signed_take_bit 63 n"

definition int64_sum :: "int list \<Rightarrow> int" where
  "int64_sum xs = foldl (\<lambda>s x. wrap_int64 (s + x)) 0 xs"

definition round_half_even :: "real \<Rightarrow> int" where
  "round_half_even x =
     (let n = \<lfloor>x\<rfloor>; f = x - of_int n
      in if f < 1/2 then n else if 1/2 < f then n + 1 else if even n then n else n + 1)"

definition float64 :: "real \<Rightarrow> real" where
  "float64 x =
     (if x = 0 then 0
      else let e = \<lfloor>log 2 \<bar>x\<bar>\<rfloor>; ulp = 2 powr (of_int e - 52)
           in of_int (round_half_even (x / ulp)) * ulp)"

text \<open>
  The array library adds up a float64 column of fewer than eight values from left to
  right, rounding after each addition; longer columns are added up in blocks, which
  changes the order of the additions and not their kind. The model adds from left
  to right. The theorems about sums of float64 columns hold for any order of the
  additions; the one example that evaluates such sums has columns of three values at
  most.
\<close>

definition float64_sum :: "real list \<Rightarrow> real" where
  "float64_sum xs = foldl (\<lambda>s x. float64 (s + x)) 0 xs"

section \<open>The primitives of the data-frame library the pages call\<close>

text \<open>\<^verbatim>\<open>Series.unique()\<close>: the distinct values, in order of first appearance.\<close>

fun unique :: "'a list \<Rightarrow> 'a list" where
  "unique [] = []"
| "unique (x # xs) = x # unique (removeAll x xs)"

text \<open>
  \<^verbatim>\<open>df[cols].sum()\<close> and \<^verbatim>\<open>df[col].sum()\<close>: one total per selected column, an int64
  sum for an int64 column and a float64 sum for a float64 column.
\<close>

definition series_sum :: "column \<Rightarrow> frame \<Rightarrow> real" where
  "series_sum c df =
     (case int_column c of
        Some field \<Rightarrow> of_int (int64_sum (map field df))
      | None \<Rightarrow> float64_sum (map (cell c) df))"

definition sum_columns :: "column list \<Rightarrow> frame \<Rightarrow> real list" where
  "sum_columns cols df = map (\<lambda>c. series_sum c df) cols"

text \<open>The sum of two int64 totals, and of two float64 totals.\<close>

definition add_int64 :: "real \<Rightarrow> real \<Rightarrow> real" where
  "add_int64 x y = of_int (wrap_int64 (\<lfloor>x\<rfloor> + \<lfloor>y\<rfloor>))"

definition add_float64 :: "real \<Rightarrow> real \<Rightarrow> real" where
  "add_float64 x y = float64 (x + y)"

text \<open>
  The total of a column in unbounded arithmetic (0 for a float64 column), and the range
  of int64: a column total that fits is the total the int64 sum returns.
\<close>

definition exact_total :: "column \<Rightarrow> frame \<Rightarrow> int" where
  "exact_total c df = (case int_column c of Some field \<Rightarrow> (\<Sum>r\<leftarrow>df. field r) | None \<Rightarrow> 0)"

definition fits_int64 :: "int \<Rightarrow> bool" where
  "fits_int64 n \<longleftrightarrow> - (2 ^ 63) \<le> n \<and> n < 2 ^ 63"

text \<open>
  \<^verbatim>\<open>df.groupby(key)[cols].agg()\<close>: one entry per distinct key, the keys in ascending
  order (\<^verbatim>\<open>sort=True\<close> is the default), each with the aggregate of its group's rows.
\<close>

definition groupby :: "(flight \<Rightarrow> 'k::linorder) \<Rightarrow> (frame \<Rightarrow> 'v) \<Rightarrow> frame \<Rightarrow> ('k \<times> 'v) list" where
  "groupby key agg df =
     map (\<lambda>k. (k, agg (filter (\<lambda>r. key r = k) df))) (sort (unique (map key df)))"

section \<open>Page 1: filter by date\<close>

definition unique_dates :: "frame \<Rightarrow> int list" where
  "unique_dates df = unique (map (\<lambda>r. dt_date (departure_date r)) df)"

definition filter_by_date :: "frame \<Rightarrow> int \<Rightarrow> frame" where
  "filter_by_date df selected_date =
     filter (\<lambda>r. dt_date (departure_date r) = selected_date) df"

definition summary :: "frame \<Rightarrow> real list" where
  "summary filtered_df = sum_columns [Adults, Infants, Total_Booked] filtered_df"

definition no_shows_by_segment :: "frame \<Rightarrow> (string \<times> real) list" where
  "no_shows_by_segment filtered_df = groupby segment (series_sum No_Shows) filtered_df"

section \<open>Page 2: filter by segment\<close>

definition filter_by_segment :: "frame \<Rightarrow> string \<Rightarrow> frame" where
  "filter_by_segment df selected_segment = filter (\<lambda>r. segment r = selected_segment) df"

definition daily_totals :: "frame \<Rightarrow> (timestamp \<times> real list) list" where
  "daily_totals filtered_df =
     groupby departure_date (sum_columns [Adults, Infants, Total_Booked]) filtered_df"

definition no_shows_daily :: "frame \<Rightarrow> (timestamp \<times> real) list" where
  "no_shows_daily filtered_df = groupby departure_date (series_sum No_Shows) filtered_df"

section \<open>Page 3: advanced statistics\<close>

text \<open>
  \<^verbatim>\<open>Series.sort_values(ascending=False)\<close> orders the series by the library routine
  \<^verbatim>\<open>nargsort\<close>: it reverses the values and their positions, asks the array
  library for the ascending argsort of the reversed values (\<^verbatim>\<open>kind='quicksort'\<close> is
  the default), and reverses the positions so obtained. The argsort kernel is not part
  of the repository and its choice among equal values is not fixed by the call, so the
  kernel is a parameter of the model. \<open>argsort_ok\<close> is its contract: the positions it
  returns are a permutation of the positions of its input that puts the values in
  ascending order. The sums sorted here are never NaN, so the NaN mask of the routine
  selects every position.
\<close>

definition argsort_ok :: "(real list \<Rightarrow> nat list) \<Rightarrow> bool" where
  "argsort_ok argsort \<longleftrightarrow>
     (\<forall>xs. mset (argsort xs) = mset [0..<length xs] \<and> sorted (map (\<lambda>i. xs ! i) (argsort xs)))"

definition nargsort_descending :: "(real list \<Rightarrow> nat list) \<Rightarrow> real list \<Rightarrow> nat list" where
  "nargsort_descending argsort items =
     (let non_nans = rev items;
          non_nan_idx = rev [0..<length items];
          indexer = map (\<lambda>j. non_nan_idx ! j) (argsort non_nans)
      in rev indexer)"

definition sort_values_descending ::
    "(real list \<Rightarrow> nat list) \<Rightarrow> ('k \<times> real) list \<Rightarrow> ('k \<times> real) list" where
  "sort_values_descending argsort s =
     map (\<lambda>i. s ! i) (nargsort_descending argsort (map snd s))"

definition head :: "nat \<Rightarrow> 'a list \<Rightarrow> 'a list" where
  "head n s = take n s"

definition top_segments :: "(real list \<Rightarrow> nat list) \<Rightarrow> frame \<Rightarrow> (string \<times> real) list" where
  "top_segments argsort df =
     head 5 (sort_values_descending argsort (groupby segment (series_sum Flown_Load) df))"

definition top_dates :: "(real list \<Rightarrow> nat list) \<Rightarrow> frame \<Rightarrow> (timestamp \<times> real) list" where
  "top_dates argsort df =
     head 5 (sort_values_descending argsort (groupby departure_date (series_sum Total_Booked) df))"

definition no_shows_by_date :: "frame \<Rightarrow> (timestamp \<times> real) list" where
  "no_shows_by_date df = groupby departure_date (series_sum No_Shows) df"

text \<open>
  Two kernels that meet the contract. The first inserts the positions by their values
  and leaves equal values in the order of their positions. The second gives equal
  values in the opposite order, as an unstable quicksort may.
\<close>

definition insertion_argsort :: "real list \<Rightarrow> nat list" where
  "insertion_argsort xs = sort_key (\<lambda>i. xs ! i) [0..<length xs]"

definition unstable_argsort :: "real list \<Rightarrow> nat list" where
  "unstable_argsort xs = sort_key (\<lambda>i. xs ! i) (rev [0..<length xs])"

text \<open>
  \<^verbatim>\<open>Series.mean()\<close> and \<^verbatim>\<open>Series.std()\<close> return float64 values. The mean of no
  values is NaN. \<^verbatim>\<open>std\<close> is the square root of the variance with \<^verbatim>\<open>ddof\<close> delta
  degrees of freedom, by default 1: the library divides the sum of the squared
  deviations from the mean by \<^verbatim>\<open>count - ddof\<close>, and returns NaN when
  \<^verbatim>\<open>count <= ddof\<close>. Arithmetic with NaN gives NaN, and every comparison with NaN is
  false. The rounding of these statistics is not modelled: their arithmetic is exact.
\<close>

type_synonym float = "real option"

definition nan_add :: "float \<Rightarrow> float \<Rightarrow> float" where
  "nan_add a b = (case a of None \<Rightarrow> None | Some x \<Rightarrow> (case b of None \<Rightarrow> None | Some y \<Rightarrow> Some (x + y)))"

definition nan_mult :: "float \<Rightarrow> float \<Rightarrow> float" where
  "nan_mult a b = (case a of None \<Rightarrow> None | Some x \<Rightarrow> (case b of None \<Rightarrow> None | Some y \<Rightarrow> Some (x * y)))"

definition nan_gt :: "real \<Rightarrow> float \<Rightarrow> bool" where
  "nan_gt x t = (case t of None \<Rightarrow> False | Some y \<Rightarrow> y < x)"

definition series_mean :: "real list \<Rightarrow> float" where
  "series_mean values =
     (let count = length values
      in if count = 0 then None else Some (sum_list values / real count))"

definition series_var :: "nat \<Rightarrow> real list \<Rightarrow> float" where
  "series_var ddof values =
     (let count = length values
      in if count \<le> ddof then None
         else let avg = sum_list values / real count;
                  sqr = map (\<lambda>v. (avg - v)\<^sup>2) values
              in Some (sum_list sqr / (real count - real ddof)))"

definition series_std :: "real list \<Rightarrow> float" where
  "series_std values = map_option sqrt (series_var 1 values)"

definition outlier_threshold :: "frame \<Rightarrow> float" where
  "outlier_threshold df =
     nan_add (series_mean (map (cell No_Shows) df))
             (nan_mult (Some 2) (series_std (map (cell No_Shows) df)))"

definition outliers :: "frame \<Rightarrow> frame" where
  "outliers df = filter (\<lambda>r. nan_gt (cell No_Shows r) (outlier_threshold df)) df"

text \<open>
  The sample standard deviation as the specification words it: the square root of the
  sum of the squared deviations from the arithmetic mean, divided by \<open>N - 1\<close>.
\<close>

definition arithmetic_mean :: "real list \<Rightarrow> real" where
  "arithmetic_mean xs = (\<Sum>x\<leftarrow>xs. x) / real (length xs)"

definition sample_standard_deviation :: "real list \<Rightarrow> real" where
  "sample_standard_deviation xs =
     sqrt ((\<Sum>x\<leftarrow>xs. (x - arithmetic_mean xs)\<^sup>2) / real (length xs - 1))"

text \<open>
  \<^verbatim>\<open>numeric_df.corr()\<close>: the matrix of the Pearson correlation coefficients of the
  numeric columns, pair by pair. The library takes, over the rows, the sum of the
  products of the two columns' deviations from their means and divides it by the
  square root of the product of the two sums of squared deviations; the entry is NaN
  when there is no row or when that divisor is 0.
\<close>

definition numeric_columns :: "column list" where
  "numeric_columns = [Adults, Infants, Total_Booked, No_Shows, Flown_Load, Booked_Load]"

definition pearson :: "real list \<Rightarrow> real list \<Rightarrow> float" where
  "pearson xs ys =
     (let nobs = length xs;
          meanx = sum_list xs / real nobs;
          meany = sum_list ys / real nobs;
          covxy = (\<Sum>(x, y)\<leftarrow>zip xs ys. (x - meanx) * (y - meany));
          ssqdm_x = (\<Sum>x\<leftarrow>xs. (x - meanx)\<^sup>2);
          ssqdm_y = (\<Sum>y\<leftarrow>ys. (y - meany)\<^sup>2);
          divisor = sqrt (ssqdm_x * ssqdm_y)
      in if nobs < 1 then None
         else if divisor \<noteq> 0 then Some (covxy / divisor) else None)"

definition corr :: "frame \<Rightarrow> float list list" where
  "corr df =
     map (\<lambda>a. map (\<lambda>b. pearson (map (cell a) df) (map (cell b) df)) numeric_columns)
       numeric_columns"

section \<open>Page 4: compare two segments\<close>

text \<open>
  \<^verbatim>\<open>pd.DataFrame({seg1: no_shows1, seg2: no_shows2})\<close> builds a frame of two columns
  from two series. Its index is the union of the two indexes: the first index itself
  when the two are equal, otherwise the distinct labels of both in ascending order.
  Each series is reindexed on it, a label the series lacks giving NaN, and
  \<^verbatim>\<open>fillna(0)\<close> replaces every NaN by 0.
\<close>

definition union_indexes :: "'k::linorder list \<Rightarrow> 'k list \<Rightarrow> 'k list" where
  "union_indexes a b = (if a = b then a else sort (remdups (a @ b)))"

definition reindex :: "('k \<times> real) list \<Rightarrow> 'k list \<Rightarrow> float list" where
  "reindex s idx = map (map_of s) idx"

definition fillna :: "real \<Rightarrow> float list \<Rightarrow> real list" where
  "fillna v col = map (\<lambda>c. case c of None \<Rightarrow> v | Some x \<Rightarrow> x) col"

record compare_frame =
  date_index :: "timestamp list"
  first_column :: "real list"
  second_column :: "real list"

definition compare_df :: "frame \<Rightarrow> frame \<Rightarrow> compare_frame" where
  "compare_df df1 df2 =
     (let no_shows1 = groupby departure_date (series_sum No_Shows) df1;
          no_shows2 = groupby departure_date (series_sum No_Shows) df2;
          idx = union_indexes (map fst no_shows1) (map fst no_shows2)
      in \<lparr>date_index = idx,
          first_column = fillna 0 (reindex no_shows1 idx),
          second_column = fillna 0 (reindex no_shows2 idx)\<rparr>)"

definition daily_passengers :: "frame \<Rightarrow> (timestamp \<times> real list) list" where
  "daily_passengers dfi =
     map (\<lambda>(d, vs). (d, vs @ [add_int64 (vs ! 0) (vs ! 1)]))
       (groupby departure_date (sum_columns [Adults, Infants]) dfi)"

definition load_pairs :: "frame \<Rightarrow> (real \<times> real) list" where
  "load_pairs dfi = map (\<lambda>r. (cell Booked_Load r, cell Flown_Load r)) dfi"

text \<open>
  \<^verbatim>\<open>st.selectbox(label, options, index)\<close> raises when there are options and
  \<open>index\<close> is not the position of one of them. With no option it returns no
  selection. Otherwise it returns the option the user has chosen, and the option at
  \<open>index\<close> as long as the user has chosen none. The user's choice is an input of the
  page: the position chosen in the list, if any.
\<close>

datatype error = StreamlitAPIException

definition selectbox :: "string list \<Rightarrow> nat \<Rightarrow> nat option \<Rightarrow> error + string option" where
  "selectbox options index choice =
     (if options \<noteq> [] \<and> length options \<le> index then Inl StreamlitAPIException
      else if options = [] then Inr None
      else case choice of
             None \<Rightarrow> Inr (Some (options ! index))
           | Some i \<Rightarrow> Inr (Some (options ! (if i < length options then i else index))))"

text \<open>The two selectors of the page, in order; the second is not built when the first raises.\<close>

definition select_segments ::
    "frame \<Rightarrow> nat option \<Rightarrow> nat option \<Rightarrow> error + (string option \<times> string option)" where
  "select_segments df choice1 choice2 =
     (let segments = sort (unique (map segment df))
      in case selectbox segments 0 choice1 of
           Inl e \<Rightarrow> Inl e
         | Inr seg1 \<Rightarrow>
             (case selectbox segments 1 choice2 of
                Inl e \<Rightarrow> Inl e
              | Inr seg2 \<Rightarrow> Inr (seg1, seg2)))"

text \<open>
  What the page hands to the presentation layer, in order, and the exception that ended
  it, if any. The pictograph that starts some of the titles in the source is left out
  of the strings. \<open>str\<close> is the text an f-string puts for a selection.
\<close>

datatype element =
    Header string
  | Subheader string
  | Warning string
  | Write_Row "real list"
  | Pyplot_Trends "(timestamp \<times> real list) list" "(timestamp \<times> real list) list"
  | Line_Chart compare_frame
  | Pyplot_Scatter "(real \<times> real) list" "(real \<times> real) list"

definition str :: "string option \<Rightarrow> string" where
  "str s = (case s of None \<Rightarrow> ''None'' | Some t \<Rightarrow> t)"

definition compare_segments ::
    "frame \<Rightarrow> nat option \<Rightarrow> nat option \<Rightarrow> element list \<times> error option" where
  "compare_segments df choice1 choice2 =
     (case select_segments df choice1 choice2 of
        Inl e \<Rightarrow> ([Header ''Compare Two Segments''], Some e)
      | Inr (seg1, seg2) \<Rightarrow>
          if seg1 = seg2
          then ([Header ''Compare Two Segments'',
                 Warning ''Please select two different segments.''], None)
          else
            let df1 = filter (\<lambda>r. Some (segment r) = seg1) df;
                df2 = filter (\<lambda>r. Some (segment r) = seg2) df
            in ([Header ''Compare Two Segments'',
                 Subheader (''Summary for '' @ str seg1),
                 Write_Row (sum_columns [Adults, Infants, Total_Booked, No_Shows, Flown_Load] df1),
                 Subheader (''Summary for '' @ str seg2),
                 Write_Row (sum_columns [Adults, Infants, Total_Booked, No_Shows, Flown_Load] df2),
                 Subheader ''Passenger Trends'',
                 Pyplot_Trends (daily_passengers df1) (daily_passengers df2),
                 Subheader ''No Shows Comparison Over Time'',
                 Line_Chart (compare_df df1 df2),
                 Subheader ''Booked vs Flown Load'',
                 Pyplot_Scatter (load_pairs df1) (load_pairs df2)], None))"

text \<open>The elements that carry a result of a query over the table.\<close>

fun is_result :: "element \<Rightarrow> bool" where
  "is_result (Header _) = False"
| "is_result (Subheader _) = False"
| "is_result (Warning _) = False"
| "is_result _ = True"


section \<open>Example tables\<close>

definition row :: "int \<Rightarrow> string \<Rightarrow> int \<Rightarrow> int \<Rightarrow> int \<Rightarrow> real \<Rightarrow> flight" where
  "row day seg a i ns fl =
     \<lparr>departure_date = day * ns_per_day, flight_number = ''F1'', segment = seg,
      adults = a, infants = i, total_booked = a + i, no_shows = ns,
      flown_load = fl, booked_load = of_int (a + i)\<rparr>"

definition two_day_table :: frame where
  "two_day_table = [row 1 ''SEG-A'' 2 0 1 2, row 2 ''SEG-B'' 5 1 0 6, row 1 ''SEG-B'' 3 0 2 3]"

definition one_flight_table :: frame where
  "one_flight_table = [row 1 ''SEG-A'' 20 0 3 17]"

definition constant_table :: frame where
  "constant_table = [row 1 ''SEG-A'' 20 0 3 17, row 1 ''SEG-B'' 10 1 3 8, row 2 ''SEG-A'' 7 0 3 4]"

definition spread_table :: frame where
  "spread_table = map (\<lambda>ns. row 1 ''SEG-A'' 20 0 ns (20 - of_int ns)) [0, 0, 0, 1, 1, 1, 11]"

definition overlap_table :: frame where
  "overlap_table =
     [row 1 ''SEG-A'' 20 0 1 19, row 2 ''SEG-A'' 20 0 2 18, row 2 ''SEG-A'' 10 0 3 7,
      row 2 ''SEG-B'' 20 0 4 16, row 3 ''SEG-B'' 20 0 5 15, row 3 ''SEG-C'' 20 0 6 14]"

definition tie_table :: frame where
  "tie_table = [row 1 ''SEG-B'' 5 1 0 5, row 2 ''SEG-A'' 2 0 1 5, row 2 ''SEG-C'' 2 0 1 7]"

definition six_segment_table :: frame where
  "six_segment_table =
     [row 1 ''S1'' 5 0 0 5, row 1 ''S2'' 9 0 0 9, row 1 ''S3'' 4 0 0 4,
      row 2 ''S4'' 7 0 0 7, row 2 ''S5'' 8 0 0 8, row 2 ''S6'' 6 0 0 6, row 3 ''S1'' 3 0 0 3]"
definition tied_table :: frame where
  "tied_table =
     [row 1 ''S00'' 6 0 0 6, row 1 ''S01'' 5 0 0 5, row 1 ''S02'' 7 0 0 7, row 1 ''S03'' 7 0 0 7]"

text \<open>The float64 values nearest to 0.1, 0.2 and 0.3, and three flights that fly them.\<close>

definition tenth :: real where "tenth = 7205759403792794 / 2 ^ 56"

definition fifth :: real where "fifth = 7205759403792794 / 2 ^ 55"

definition three_tenths :: real where "three_tenths = 5404319552844595 / 2 ^ 54"

definition light_table_a :: frame where
  "light_table_a = [row 1 ''SEG-A'' 1 0 0 tenth]"

definition light_table_b :: frame where
  "light_table_b = [row 1 ''SEG-B'' 2 0 0 fifth, row 2 ''SEG-B'' 3 0 0 three_tenths]"

section \<open>Facts about the machine arithmetic\<close>

lemma round_half_even_of_int [simp]: "round_half_even (of_int m) = m"
  by (simp add: round_half_even_def)

lemma float64_exponent:
  assumes "2 powr of_int e \<le> \<bar>x\<bar>" and "\<bar>x\<bar> < 2 powr (of_int e + 1)"
  shows "float64 x = of_int (round_half_even (x / 2 powr (of_int e - 52))) * 2 powr (of_int e - 52)"
proof -
  have "0 < 2 powr real_of_int e" by simp
  with assms(1) have pos: "0 < \<bar>x\<bar>" by linarith
  then have "x \<noteq> 0" by simp
  moreover have "\<lfloor>log 2 \<bar>x\<bar>\<rfloor> = e"
    using assms pos by (simp add: floor_log_eq_powr_iff)
  ultimately show ?thesis
    by (simp add: float64_def Let_def)
qed

lemma abs_bound_53:
  assumes "\<bar>n\<bar> < (2::int) ^ 53"
  shows "\<bar>real_of_int n\<bar> < 2 powr 53"
proof -
  from assms have "real_of_int \<bar>n\<bar> < real_of_int (2 ^ 53)"
    by (simp only: of_int_less_iff)
  then show ?thesis by simp
qed

lemma exponent_bounds:
  assumes "x \<noteq> 0"
  shows "2 powr of_int \<lfloor>log 2 \<bar>x\<bar>\<rfloor> \<le> \<bar>x\<bar>"
    and "\<bar>x\<bar> < 2 powr (of_int \<lfloor>log 2 \<bar>x\<bar>\<rfloor> + 1)"
proof -
  have "0 < \<bar>x\<bar>" using assms by simp
  then have "(\<lfloor>log 2 \<bar>x\<bar>\<rfloor> = \<lfloor>log 2 \<bar>x\<bar>\<rfloor>) =
      (2 powr of_int \<lfloor>log 2 \<bar>x\<bar>\<rfloor> \<le> \<bar>x\<bar> \<and> \<bar>x\<bar> < 2 powr of_int (\<lfloor>log 2 \<bar>x\<bar>\<rfloor> + 1))"
    by (intro floor_log_eq_powr_iff) simp_all
  then show "2 powr of_int \<lfloor>log 2 \<bar>x\<bar>\<rfloor> \<le> \<bar>x\<bar>"
    and "\<bar>x\<bar> < 2 powr (of_int \<lfloor>log 2 \<bar>x\<bar>\<rfloor> + 1)"
    by simp_all
qed

lemma float64_of_int:
  assumes "\<bar>n\<bar> < 2 ^ 53"
  shows "float64 (of_int n) = of_int n"
proof (cases "n = 0")
  case True
  then show ?thesis by (simp add: float64_def)
next
  case False
  define e where "e = \<lfloor>log 2 \<bar>real_of_int n\<bar>\<rfloor>"
  define k where "k = nat (52 - e)"
  have nz: "real_of_int n \<noteq> 0" using False by simp
  have b: "2 powr of_int e \<le> \<bar>real_of_int n\<bar>" "\<bar>real_of_int n\<bar> < 2 powr (of_int e + 1)"
    unfolding e_def by (rule exponent_bounds [OF nz])+
  have "2 powr of_int e < (2::real) powr 53"
    using b(1) abs_bound_53 [OF assms] by (rule le_less_trans)
  then have "of_int e < (53::real)"
    by (simp only: powr_less_cancel_iff one_less_numeral_iff semiring_norm)
  then have e53: "e < 53" by linarith
  have "(2::real) powr of_int (e - 52) = 1 / 2 ^ nat (- (e - 52))"
    using e53 powr_int [of "2::real" "e - 52"] by simp
  then have ulp: "(2::real) powr (of_int e - 52) = 1 / 2 ^ k"
    using e53 by (simp add: k_def)
  have "round_half_even (of_int n / (1 / 2 ^ k)) = round_half_even (of_int (n * 2 ^ k))"
    by simp
  then have r: "round_half_even (of_int n / (1 / 2 ^ k)) = n * 2 ^ k"
    by (simp only: round_half_even_of_int)
  show ?thesis
    unfolding float64_exponent [OF b] ulp r by simp
qed

lemma float64_zero [simp]: "float64 0 = 0"
  by (simp add: float64_def)

lemma float64_numeral: "numeral w < (2::int) ^ 53 \<Longrightarrow> float64 (numeral w) = numeral w"
  using float64_of_int [of "numeral w"] by simp

lemma float64_one [simp]: "float64 1 = 1"
  using float64_of_int [of 1] by simp

lemma float64_scaled:
  assumes "2 ^ 52 \<le> \<bar>x\<bar> * 2 ^ k" and "\<bar>x\<bar> * 2 ^ k < 2 ^ 53"
  shows "float64 x = of_int (round_half_even (x * 2 ^ k)) / 2 ^ k"
proof -
  have p: "(2::real) powr of_int (52 - int k) = 2 ^ 52 / 2 ^ k"
    using powr_diff [of "2::real" 52 "real k"] by (simp add: powr_realpow)
  have q: "(2::real) powr (of_int (52 - int k) + 1) = 2 ^ 53 / 2 ^ k"
    using powr_diff [of "2::real" 53 "real k"] by (simp add: powr_realpow algebra_simps)
  have u: "(2::real) powr (of_int (52 - int k) - 52) = 1 / 2 ^ k"
    using powr_minus [of "2::real" "real k"] by (simp add: powr_realpow inverse_eq_divide)
  have pos: "(0::real) < 2 ^ k" by simp
  have "2 ^ 52 / 2 ^ k \<le> \<bar>x\<bar>" "\<bar>x\<bar> < 2 ^ 53 / 2 ^ k"
    using assms pos by (simp_all add: pos_divide_le_eq pos_less_divide_eq)
  then have "2 powr of_int (52 - int k) \<le> \<bar>x\<bar>" "\<bar>x\<bar> < 2 powr (of_int (52 - int k) + 1)"
    by (simp_all only: p q)
  from float64_exponent [OF this] show ?thesis
    by (simp only: u) simp
qed

lemma f_a: "float64 tenth = tenth"
  using float64_scaled [of tenth 56] by (simp add: tenth_def round_half_even_def Let_def)

lemma f_b: "float64 fifth = fifth"
  using float64_scaled [of fifth 55] by (simp add: fifth_def round_half_even_def Let_def)

lemma f_ab: "float64 (tenth + fifth) = 5404319552844596 / 2 ^ 54"
  using float64_scaled [of "tenth + fifth" 54]
  by (simp add: tenth_def fifth_def round_half_even_def Let_def)

lemma f_abc: "float64 (5404319552844596 / 2 ^ 54 + three_tenths) = 5404319552844596 / 2 ^ 53"
  using float64_scaled [of "5404319552844596 / 2 ^ 54 + three_tenths" 53]
  by (simp add: three_tenths_def round_half_even_def Let_def)

lemma f_bc: "float64 (fifth + three_tenths) = 1 / 2"
  using float64_scaled [of "fifth + three_tenths" 53]
  by (simp add: fifth_def three_tenths_def round_half_even_def Let_def)

lemma f_a_bc: "float64 (tenth + 1 / 2) = 5404319552844595 / 2 ^ 53"
  using float64_scaled [of "tenth + 1 / 2" 53]
  by (simp add: tenth_def round_half_even_def Let_def)

lemma wrap_int64_small: "- (2 ^ 63) \<le> n \<Longrightarrow> n < 2 ^ 63 \<Longrightarrow> wrap_int64 n = n"
  by (simp add: wrap_int64_def signed_take_bit_int_eq_self)

lemma wrap_int64_add_left: "wrap_int64 (wrap_int64 a + b) = wrap_int64 (a + b)"
proof -
  have "signed_take_bit 63 (signed_take_bit 63 (signed_take_bit 63 a) + signed_take_bit 63 b)
      = signed_take_bit 63 (signed_take_bit 63 a + b)"
    by (rule signed_take_bit_add)
  moreover have "signed_take_bit 63 (signed_take_bit 63 a + signed_take_bit 63 b)
      = signed_take_bit 63 (a + b)"
    by (rule signed_take_bit_add)
  ultimately show ?thesis by (simp add: wrap_int64_def)
qed

lemma wrap_int64_add: "wrap_int64 (wrap_int64 a + wrap_int64 b) = wrap_int64 (a + b)"
  by (simp add: wrap_int64_def signed_take_bit_add)

lemma foldl_wrap_int64:
  "foldl (\<lambda>s x. wrap_int64 (s + x)) (wrap_int64 a) xs = wrap_int64 (a + sum_list xs)"
proof (induction xs arbitrary: a)
  case Nil
  then show ?case by simp
next
  case (Cons x xs)
  have "foldl (\<lambda>s x. wrap_int64 (s + x)) (wrap_int64 a) (x # xs)
      = foldl (\<lambda>s x. wrap_int64 (s + x)) (wrap_int64 (a + x)) xs"
    by (simp add: wrap_int64_add_left)
  also have "\<dots> = wrap_int64 (a + x + sum_list xs)"
    by (rule Cons.IH)
  finally show ?case by (simp add: add.assoc)
qed

lemma int64_sum_eq: "int64_sum xs = wrap_int64 (sum_list xs)"
  using foldl_wrap_int64 [of 0 xs] by (simp add: int64_sum_def wrap_int64_def)

lemma int64_sum_small:
  "- (2 ^ 63) \<le> sum_list xs \<Longrightarrow> sum_list xs < 2 ^ 63 \<Longrightarrow> int64_sum xs = sum_list xs"
  by (simp add: int64_sum_eq wrap_int64_small)


section \<open>Facts about the primitives\<close>

lemma set_unique: "set (unique xs) = set xs"
  by (induction xs rule: unique.induct) auto

lemma distinct_unique: "distinct (unique xs)"
  by (induction xs rule: unique.induct) (auto simp: set_unique)

lemma filter_mset_all: "(\<forall>x\<in>set xs. P x) \<Longrightarrow> filter_mset P (mset xs) = mset xs"
  by (induction xs) auto

lemma mset_concat_groups:
  "distinct ks \<Longrightarrow>
   mset (concat (map (\<lambda>k. filter (\<lambda>r. f r = k) xs) ks)) = filter_mset (\<lambda>r. f r \<in> set ks) (mset xs)"
proof (induction ks)
  case Nil
  then show ?case by simp
next
  case (Cons k ks)
  then have "k \<notin> set ks" and "distinct ks" by simp_all
  with Cons.IH show ?case
    by (auto simp: multiset_eq_iff)
qed

lemma groupby_Nil: "groupby key agg [] = []"
  by (simp add: groupby_def)

lemma sum_list_mset_cong:
  "mset xs = mset ys \<Longrightarrow> sum_list (map f xs) = sum_list (map (f::'a \<Rightarrow> int) ys)"
  by (metis sum_mset_sum_list mset_map)

lemma series_sum_Nil: "series_sum c [] = 0"
  by (cases c) (simp_all add: series_sum_def int64_sum_def float64_sum_def)

lemma series_sum_int:
  "int_column c = Some field \<Longrightarrow> series_sum c df = of_int (wrap_int64 (\<Sum>r\<leftarrow>df. field r))"
  by (simp add: series_sum_def int64_sum_eq)

lemma add_int64_of_int: "add_int64 (of_int m) (of_int n) = of_int (wrap_int64 (m + n))"
  by (simp add: add_int64_def)

lemma series_sum_union:
  assumes "mset ab = mset a + mset b" and "int_column c = Some field"
  shows "series_sum c ab = add_int64 (series_sum c a) (series_sum c b)"
proof -
  have "mset ab = mset (a @ b)" using assms(1) by simp
  then have "(\<Sum>r\<leftarrow>ab. field r) = (\<Sum>r\<leftarrow>a @ b. field r)"
    by (rule sum_list_mset_cong)
  then have "(\<Sum>r\<leftarrow>ab. field r) = (\<Sum>r\<leftarrow>a. field r) + (\<Sum>r\<leftarrow>b. field r)"
    by simp
  then show ?thesis
    by (simp add: series_sum_int [OF assms(2)] add_int64_of_int wrap_int64_add)
qed

lemma add_int64_plain:
  assumes "- (2 ^ 63) \<le> m + n" and "m + n < 2 ^ 63"
  shows "add_int64 (of_int m) (of_int n) = of_int m + of_int n"
  using assms by (simp add: add_int64_of_int wrap_int64_small)

lemma map2_map: "map2 h (map f cols) (map g cols) = map (\<lambda>c. h (f c) (g c)) cols"
  by (induction cols) auto


lemma constant_column:
  "(\<forall>r\<in>set df. no_shows r = c) \<Longrightarrow> map (cell No_Shows) df = replicate (length df) (of_int c)"
  by (induction df) auto

lemma series_mean_replicate: "0 < n \<Longrightarrow> series_mean (replicate n c) = Some c"
  by (simp add: series_mean_def sum_list_replicate)

lemma series_std_replicate: "2 \<le> n \<Longrightarrow> series_std (replicate n c) = Some 0"
  by (simp add: series_std_def series_var_def sum_list_replicate Let_def)

lemma series_std_short: "length xs \<le> 1 \<Longrightarrow> series_std xs = None"
  by (simp add: series_std_def series_var_def)

lemma nan_gt_None: "nan_gt x None = False"
  by (simp add: nan_gt_def)

lemma outlier_threshold_short: "length df \<le> 1 \<Longrightarrow> outlier_threshold df = None"
  by (simp add: outlier_threshold_def series_std_short nan_add_def nan_mult_def split: option.splits)

lemma outliers_short: "length df \<le> 1 \<Longrightarrow> outliers df = []"
  by (simp add: outliers_def outlier_threshold_short nan_gt_None)

lemma spread_column: "map (cell No_Shows) spread_table = [0, 0, 0, 1, 1, 1, 11]"
  by (simp add: spread_table_def row_def)

lemma keys_groupby: "map fst (groupby key agg df) = sort (unique (map key df))"
  by (simp add: groupby_def comp_def)

lemma map_of_groupby:
  "map_of (groupby key agg df) k =
     (if k \<in> key ` set df then Some (agg (filter (\<lambda>r. key r = k) df)) else None)"
  by (simp add: groupby_def map_of_map_restrict restrict_map_def set_unique)

lemma union_indexes_sorted:
  assumes "sorted a" "distinct a" "sorted b" "distinct b"
  shows "union_indexes a b = sorted_list_of_set (set a \<union> set b)"
proof (cases "a = b")
  case True
  with assms show ?thesis
    by (simp add: union_indexes_def sorted_list_of_set.idem_if_sorted_distinct)
next
  case False
  then show ?thesis
    by (simp add: union_indexes_def sorted_list_of_set_sort_remdups [symmetric])
qed

lemma overlap_compare_value:
  "compare_df (filter (\<lambda>r. segment r = ''SEG-A'') overlap_table)
              (filter (\<lambda>r. segment r = ''SEG-B'') overlap_table)
   = \<lparr>date_index = [1 * ns_per_day, 2 * ns_per_day, 3 * ns_per_day],
      first_column = [1, 5, 0], second_column = [0, 4, 5]\<rparr>"
  by (simp add: overlap_table_def compare_df_def groupby_def union_indexes_def reindex_def
      fillna_def series_sum_def int64_sum_def wrap_int64_small row_def ns_per_day_def
      del: sorted_list_of_set.fold_insort_key.insert set_remdups)

lemma insertion_argsort_ok: "argsort_ok insertion_argsort"
  by (simp add: argsort_ok_def insertion_argsort_def sorted_sort_key)

lemma unstable_argsort_ok: "argsort_ok unstable_argsort"
  by (simp add: argsort_ok_def unstable_argsort_def sorted_sort_key)

lemma length_groupby: "length (groupby key agg df) = card (key ` set df)"
  by (simp add: groupby_def) (metis distinct_card distinct_unique length_map set_map set_unique)

lemma keys_groupby_strict: "sorted_wrt (<) (map fst (groupby key agg df))"
  by (simp add: groupby_def comp_def strict_sorted_iff distinct_unique)

lemma argsort_positions:
  assumes "argsort_ok argsort"
  shows "set (argsort xs) = {0..<length xs}" and "length (argsort xs) = length xs"
proof -
  from assms have m: "mset (argsort xs) = mset [0..<length xs]"
    by (simp add: argsort_ok_def)
  from m show "set (argsort xs) = {0..<length xs}"
    by (metis set_mset_mset set_upt)
  from m show "length (argsort xs) = length xs"
    by (metis size_mset length_upt diff_zero)
qed

lemma sort_values_descending_eq:
  assumes "argsort_ok argsort"
  shows "sort_values_descending argsort s
       = rev (map (\<lambda>j. s ! (length s - Suc j)) (argsort (rev (map snd s))))"
proof -
  let ?ys = "argsort (rev (map snd s))"
  have "map (\<lambda>j. rev [0..<length s] ! j) ?ys = map (\<lambda>j. length s - Suc j) ?ys"
  proof (rule map_cong [OF refl])
    fix j assume "j \<in> set ?ys"
    then have "j < length s" using argsort_positions(1) [OF assms, of "rev (map snd s)"] by simp
    then show "rev [0..<length s] ! j = length s - Suc j"
      by (simp add: rev_nth)
  qed
  then show ?thesis
    by (simp add: sort_values_descending_def nargsort_descending_def Let_def rev_map comp_def)
qed

lemma mset_sort_values_descending:
  assumes "argsort_ok argsort"
  shows "mset (sort_values_descending argsort s) = mset s"
proof -
  let ?ys = "argsort (rev (map snd s))"
  let ?g = "\<lambda>j. s ! (length s - Suc j)"
  have m: "mset ?ys = mset [0..<length s]"
    using assms unfolding argsort_ok_def by (metis length_rev length_map)
  have g: "map ?g [0..<length s] = map (\<lambda>j. rev s ! j) [0..<length (rev s)]"
    by (simp add: rev_nth)
  have "mset (map ?g ?ys) = image_mset ?g (mset ?ys)"
    by simp
  also have "\<dots> = mset (map ?g [0..<length s])"
    by (simp only: m mset_map)
  also have "\<dots> = mset (rev s)"
    by (simp only: g map_nth)
  finally show ?thesis
    by (simp add: sort_values_descending_eq [OF assms])
qed

lemma sorted_sort_values_descending:
  assumes "argsort_ok argsort"
  shows "sorted_wrt (\<lambda>a b. snd b \<le> snd a) (sort_values_descending argsort s)"
proof -
  let ?ys = "argsort (rev (map snd s))"
  have "sorted (map (\<lambda>j. rev (map snd s) ! j) ?ys)"
    using assms by (simp add: argsort_ok_def)
  moreover have "map (\<lambda>j. rev (map snd s) ! j) ?ys = map (\<lambda>j. snd (s ! (length s - Suc j))) ?ys"
  proof (rule map_cong [OF refl])
    fix j assume "j \<in> set ?ys"
    then have "j < length s" using argsort_positions(1) [OF assms, of "rev (map snd s)"] by simp
    then show "rev (map snd s) ! j = snd (s ! (length s - Suc j))"
      by (simp add: rev_nth)
  qed
  ultimately have "sorted_wrt (\<lambda>i j. snd (s ! (length s - Suc i)) \<le> snd (s ! (length s - Suc j))) ?ys"
    by (simp add: sorted_wrt_map)
  then show ?thesis
    by (simp add: sort_values_descending_eq [OF assms] sorted_wrt_rev sorted_wrt_map)
qed

lemma top_rest_below:
  assumes "sorted_wrt (\<lambda>a b. snd b \<le> snd a) full" and "set full = set groups"
  shows "\<forall>g\<in>set groups - set (head n full). \<forall>t\<in>set (head n full). snd g \<le> snd t"
proof -
  have "sorted_wrt (\<lambda>a b. snd b \<le> snd a) (take n full @ drop n full)"
    using assms(1) by simp
  then have "\<forall>t\<in>set (take n full). \<forall>g\<in>set (drop n full). snd g \<le> snd t"
    by (simp only: sorted_wrt_append) blast
  moreover have "set groups = set (take n full) \<union> set (drop n full)"
    using assms(2) by (metis append_take_drop_id set_append)
  ultimately show ?thesis
    by (auto simp: head_def)
qed

lemma top_n_props:
  fixes key :: "flight \<Rightarrow> 'k::linorder" and agg :: "frame \<Rightarrow> real" and df :: frame
  assumes ok: "argsort_ok argsort"
  shows "sorted_wrt (\<lambda>a b. snd b \<le> snd a)
           (head n (sort_values_descending argsort (groupby key agg df)))"
    and "length (head n (sort_values_descending argsort (groupby key agg df)))
           = min n (card (key ` set df))"
    and "distinct (map fst (head n (sort_values_descending argsort (groupby key agg df))))"
    and "set (head n (sort_values_descending argsort (groupby key agg df)))
           \<subseteq> set (groupby key agg df)"
    and "\<forall>g\<in>set (groupby key agg df)
              - set (head n (sort_values_descending argsort (groupby key agg df))).
           \<forall>t\<in>set (head n (sort_values_descending argsort (groupby key agg df))).
             snd g \<le> snd t"
proof -
  let ?groups = "groupby key agg df"
  let ?full = "sort_values_descending argsort ?groups"
  have s: "sorted_wrt (\<lambda>a b. snd b \<le> snd a) ?full"
    by (rule sorted_sort_values_descending [OF ok])
  have m: "mset ?full = mset ?groups"
    by (rule mset_sort_values_descending [OF ok])
  then have e: "set ?full = set ?groups"
    by (metis set_mset_mset)
  from m have l: "length ?full = length ?groups"
    by (metis size_mset)
  have "distinct (map fst ?groups)"
    using keys_groupby_strict [of key agg df] by (simp add: strict_sorted_iff)
  moreover from m have "mset (map fst ?full) = mset (map fst ?groups)"
    by simp
  ultimately have d: "distinct (map fst ?full)"
    by (metis mset_eq_imp_distinct_iff)
  show "sorted_wrt (\<lambda>a b. snd b \<le> snd a) (head n ?full)"
    unfolding head_def using s by (rule sorted_wrt_take)
  show "length (head n ?full) = min n (card (key ` set df))"
    by (simp add: head_def l length_groupby min.commute)
  show "distinct (map fst (head n ?full))"
    using d by (simp add: head_def take_map [symmetric])
  show "set (head n ?full) \<subseteq> set ?groups"
    unfolding head_def using e set_take_subset by fastforce
  show "\<forall>g\<in>set ?groups - set (head n ?full). \<forall>t\<in>set (head n ?full). snd g \<le> snd t"
    using s e by (rule top_rest_below)
qed

lemmas evaluate_sums =
  series_sum_def int64_sum_def float64_sum_def wrap_int64_small float64_numeral

lemma tie_top_segments:
  "top_segments insertion_argsort tie_table = [(''SEG-C'', 7), (''SEG-A'', 5), (''SEG-B'', 5)]"
  by (simp add: top_segments_def head_def sort_values_descending_def nargsort_descending_def
      insertion_argsort_def groupby_def evaluate_sums tie_table_def row_def upt_conv_Cons)

lemma tied_top_segments:
  "top_segments unstable_argsort tied_table
     = [(''S03'', 7), (''S02'', 7), (''S00'', 6), (''S01'', 5)]"
  by (simp add: top_segments_def head_def sort_values_descending_def nargsort_descending_def
      unstable_argsort_def groupby_def evaluate_sums tied_table_def row_def upt_conv_Cons)

lemma float64_sum_light_all:
  "float64_sum [tenth, fifth, three_tenths] = 5404319552844596 / 2 ^ 53"
  by (simp only: float64_sum_def foldl.simps add_0 f_a f_ab f_abc)

lemma float64_sum_light_a: "float64_sum [tenth] = tenth"
  by (simp only: float64_sum_def foldl.simps add_0 f_a)

lemma float64_sum_light_b: "float64_sum [fifth, three_tenths] = 1 / 2"
  by (simp only: float64_sum_def foldl.simps add_0 f_b f_bc)

lemma light_totals:
  "sum_columns [Flown_Load] (light_table_a @ light_table_b) = [5404319552844596 / 2 ^ 53]"
  "sum_columns [Flown_Load] light_table_a = [tenth]"
  "sum_columns [Flown_Load] light_table_b = [1 / 2]"
  by (simp_all add: sum_columns_def series_sum_def light_table_a_def light_table_b_def row_def
      float64_sum_light_all float64_sum_light_a float64_sum_light_b)


section \<open>Filtering by date\<close>

text \<open>
  Claim C1. For every table and every date \<open>d\<close>, the By Date page's \<open>filtered_df\<close> is
  the table restricted to the rows whose departure day is \<open>d\<close>, in table order. The
  days offered by the selector are pairwise distinct, every row of the table lies in
  the sub-table of exactly one of them, and the sub-tables of all of them together
  hold every row of the table exactly as often as the table does.
\<close>

theorem filter_by_date_partition:
  "filter_by_date df d = filter (\<lambda>r. dt_date (departure_date r) = d) df
   \<and> distinct (unique_dates df)
   \<and> (\<forall>r \<in> set df. \<exists>!d'. d' \<in> set (unique_dates df) \<and> r \<in> set (filter_by_date df d'))
   \<and> mset (concat (map (filter_by_date df) (unique_dates df))) = mset df"
proof (intro conjI)
  show "filter_by_date df d = filter (\<lambda>r. dt_date (departure_date r) = d) df"
    by (simp add: filter_by_date_def)
  show "distinct (unique_dates df)"
    by (simp add: unique_dates_def distinct_unique)
  show "\<forall>r \<in> set df. \<exists>!d'. d' \<in> set (unique_dates df) \<and> r \<in> set (filter_by_date df d')"
    by (auto simp: unique_dates_def set_unique filter_by_date_def)
  have "mset (concat (map (filter_by_date df) (unique_dates df)))
      = filter_mset (\<lambda>r. dt_date (departure_date r) \<in> set (unique_dates df)) (mset df)"
    unfolding filter_by_date_def
    by (rule mset_concat_groups) (simp add: unique_dates_def distinct_unique)
  also have "\<dots> = mset df"
    by (rule filter_mset_all) (simp add: unique_dates_def set_unique)
  finally show "mset (concat (map (filter_by_date df) (unique_dates df))) = mset df" .
qed

theorem filter_by_date_partition_witness:
  "filter_by_date two_day_table 1 = [row 1 ''SEG-A'' 2 0 1 2, row 1 ''SEG-B'' 3 0 2 3]
   \<and> unique_dates two_day_table = [1, 2]
   \<and> filter_by_date two_day_table 2 = [row 2 ''SEG-B'' 5 1 0 6]
   \<and> mset (filter_by_date two_day_table 1 @ filter_by_date two_day_table 2) = mset two_day_table"
  using filter_by_date_partition [of two_day_table 1]
  by (simp add: unique_dates_def filter_by_date_def two_day_table_def row_def dt_date_def
      ns_per_day_def)
section \<open>Sums of columns\<close>

text \<open>
  Claim C9, as amended. Summing int64 columns is linear: when a table holds exactly
  the rows of two sub-tables \<open>a\<close> and \<open>b\<close> that share no row (each row as often as
  \<open>a\<close> and \<open>b\<close> together hold it), then for every list of int64 columns the totals
  over the table are the column-wise int64 sums of the totals over \<open>a\<close> and over
  \<open>b\<close>; so are the three totals of the By Date page's summary. When the totals fit
  int64, the column-wise sums are the sums of the numbers.
\<close>

theorem sum_columns_linear:
  assumes "mset ab = mset a + mset b" and "\<forall>c\<in>set cols. int_column c \<noteq> None"
  shows "sum_columns cols ab = map2 add_int64 (sum_columns cols a) (sum_columns cols b)
     \<and> summary ab = map2 add_int64 (summary a) (summary b)
     \<and> ((\<forall>c\<in>set cols. fits_int64 (exact_total c a) \<and> fits_int64 (exact_total c b)
            \<and> fits_int64 (exact_total c ab)) \<longrightarrow>
          sum_columns cols ab = map2 (+) (sum_columns cols a) (sum_columns cols b))"
proof (intro conjI impI)
  have u: "series_sum c ab = add_int64 (series_sum c a) (series_sum c b)"
    if "int_column c \<noteq> None" for c
    using that series_sum_union [OF assms(1)] by auto
  show "sum_columns cols ab = map2 add_int64 (sum_columns cols a) (sum_columns cols b)"
    using assms(2) by (simp add: sum_columns_def map2_map u)
  show "summary ab = map2 add_int64 (summary a) (summary b)"
    by (simp add: summary_def sum_columns_def u)
  assume fits: "\<forall>c\<in>set cols. fits_int64 (exact_total c a) \<and> fits_int64 (exact_total c b)
      \<and> fits_int64 (exact_total c ab)"
  have "series_sum c ab = series_sum c a + series_sum c b" if c: "c \<in> set cols" for c
  proof -
    from c assms(2) obtain field where f: "int_column c = Some field" by auto
    have "mset ab = mset (a @ b)" using assms(1) by simp
    then have "(\<Sum>r\<leftarrow>ab. field r) = (\<Sum>r\<leftarrow>a @ b. field r)"
      by (rule sum_list_mset_cong)
    then have s: "(\<Sum>r\<leftarrow>ab. field r) = (\<Sum>r\<leftarrow>a. field r) + (\<Sum>r\<leftarrow>b. field r)"
      by simp
    from fits c f have "wrap_int64 (\<Sum>r\<leftarrow>a. field r) = (\<Sum>r\<leftarrow>a. field r)"
        "wrap_int64 (\<Sum>r\<leftarrow>b. field r) = (\<Sum>r\<leftarrow>b. field r)"
        "wrap_int64 (\<Sum>r\<leftarrow>ab. field r) = (\<Sum>r\<leftarrow>ab. field r)"
      by (auto simp: fits_int64_def exact_total_def wrap_int64_small)
    then show ?thesis
      by (simp add: series_sum_int [OF f] s)
  qed
  then show "sum_columns cols ab = map2 (+) (sum_columns cols a) (sum_columns cols b)"
    by (simp add: sum_columns_def map2_map)
qed

theorem sum_columns_linear_witness:
  "mset two_day_table = mset (filter_by_date two_day_table 1) + mset (filter_by_date two_day_table 2)
   \<and> list_all (\<lambda>c. int_column c \<noteq> None) [Adults, Infants, Total_Booked]
   \<and> summary (filter_by_date two_day_table 1) = [5, 0, 5]
   \<and> summary (filter_by_date two_day_table 2) = [5, 1, 6]
   \<and> summary two_day_table = [10, 1, 11]
   \<and> summary two_day_table
       = map2 add_int64 (summary (filter_by_date two_day_table 1))
           (summary (filter_by_date two_day_table 2))"
proof -
  have m: "mset two_day_table
      = mset (filter_by_date two_day_table 1) + mset (filter_by_date two_day_table 2)"
    by (simp add: filter_by_date_def two_day_table_def row_def dt_date_def ns_per_day_def)
  have c: "\<forall>c\<in>set [Adults, Infants, Total_Booked]. int_column c \<noteq> None"
    by simp
  have 1: "summary (filter_by_date two_day_table 1) = [5, 0, 5]"
    by (simp add: filter_by_date_def two_day_table_def row_def dt_date_def ns_per_day_def
        summary_def sum_columns_def evaluate_sums)
  have 2: "summary (filter_by_date two_day_table 2) = [5, 1, 6]"
    by (simp add: filter_by_date_def two_day_table_def row_def dt_date_def ns_per_day_def
        summary_def sum_columns_def evaluate_sums)
  have 3: "summary two_day_table = [10, 1, 11]"
    by (simp add: two_day_table_def row_def summary_def sum_columns_def evaluate_sums)
  from sum_columns_linear [OF m c]
  have "summary two_day_table
       = map2 add_int64 (summary (filter_by_date two_day_table 1))
           (summary (filter_by_date two_day_table 2))"
    by (rule conjunct2 [THEN conjunct1])
  with m 1 2 3 show ?thesis by simp
qed

text \<open>
  The claim as the specification states it covers every column list. On the float64
  column of the flown load it fails: three flights fly 0.1, 0.2 and 0.3; the total
  of the three is 0.6000000000000001, while the totals 0.1 of the first and 0.5 of the
  other two add up to less, as numbers and as float64 values.
\<close>

theorem sum_columns_float_counterexample:
  "mset (light_table_a @ light_table_b) = mset light_table_a + mset light_table_b
   \<and> sum_columns [Flown_Load] (light_table_a @ light_table_b)
       \<noteq> map2 (+) (sum_columns [Flown_Load] light_table_a)
            (sum_columns [Flown_Load] light_table_b)
   \<and> sum_columns [Flown_Load] (light_table_a @ light_table_b)
       \<noteq> map2 add_float64 (sum_columns [Flown_Load] light_table_a)
            (sum_columns [Flown_Load] light_table_b)"
proof -
  have "(5404319552844596 / 2 ^ 53 :: real) \<noteq> tenth + 1 / 2"
    by (simp add: tenth_def)
  moreover have "(5404319552844596 / 2 ^ 53 :: real) \<noteq> float64 (tenth + 1 / 2)"
    by (simp only: f_a_bc) simp
  ultimately show ?thesis
    by (simp add: light_totals add_float64_def)
qed


section \<open>Grouping an empty sub-table\<close>

text \<open>
  Claim C7. Every grouping of an empty sub-table is the empty result, and the column
  totals of an empty sub-table are zeros; the queries are total functions, so there is
  no failure. In particular, for a date that no row of the table has, the filter by
  date gives the empty sub-table, its no-shows by segment are empty and its summary is
  zero; for a segment that no row has, the filter by segment gives the empty sub-table
  and its daily totals and daily no-shows are empty.
\<close>

theorem grouping_empty_sub_table:
  "groupby key agg [] = []
   \<and> sum_columns cols [] = map (\<lambda>c. 0) cols
   \<and> (d \<notin> set (unique_dates df) \<longrightarrow>
        filter_by_date df d = []
        \<and> no_shows_by_segment (filter_by_date df d) = []
        \<and> summary (filter_by_date df d) = [0, 0, 0])
   \<and> (s \<notin> segment ` set df \<longrightarrow>
        filter_by_segment df s = []
        \<and> daily_totals (filter_by_segment df s) = []
        \<and> no_shows_daily (filter_by_segment df s) = [])"
proof (intro conjI impI)
  show "groupby key agg [] = []" by (rule groupby_Nil)
  show "sum_columns cols [] = map (\<lambda>c. 0) cols"
    by (simp add: sum_columns_def series_sum_Nil)
next
  assume "d \<notin> set (unique_dates df)"
  then show e: "filter_by_date df d = []"
    by (auto simp: unique_dates_def set_unique filter_by_date_def filter_empty_conv)
  show "no_shows_by_segment (filter_by_date df d) = []"
    by (simp add: e no_shows_by_segment_def groupby_Nil)
  show "summary (filter_by_date df d) = [0, 0, 0]"
    by (simp add: e summary_def sum_columns_def series_sum_Nil)
next
  assume "s \<notin> segment ` set df"
  then show e: "filter_by_segment df s = []"
    by (auto simp: filter_by_segment_def filter_empty_conv)
  show "daily_totals (filter_by_segment df s) = []"
    by (simp add: e daily_totals_def groupby_Nil)
  show "no_shows_daily (filter_by_segment df s) = []"
    by (simp add: e no_shows_daily_def groupby_Nil)
qed

theorem grouping_empty_sub_table_witness:
  "3 \<notin> set (unique_dates two_day_table)
   \<and> ''SEG-C'' \<notin> segment ` set two_day_table
   \<and> no_shows_by_segment (filter_by_date two_day_table 3) = []
   \<and> summary (filter_by_date two_day_table 3) = [0, 0, 0]
   \<and> daily_totals (filter_by_segment two_day_table ''SEG-C'') = []
   \<and> no_shows_daily (filter_by_segment two_day_table ''SEG-C'') = []"
proof -
  have d: "3 \<notin> set (unique_dates two_day_table)"
    by (simp add: unique_dates_def two_day_table_def row_def dt_date_def ns_per_day_def)
  have s: "''SEG-C'' \<notin> segment ` set two_day_table"
    by (simp add: two_day_table_def row_def)
  from d s grouping_empty_sub_table [of segment "series_sum No_Shows" "[]" 3 two_day_table "''SEG-C''"]
  show ?thesis by blast
qed
section \<open>Comparing a segment with itself\<close>

lemma selectbox_in_range:
  "index < length segs \<Longrightarrow> \<exists>s. selectbox segs index choice = Inr (Some s)"
  by (cases segs; cases choice) (simp_all add: selectbox_def)

lemma select_segments_two:
  assumes "2 \<le> length (sort (unique (map segment df)))"
  shows "\<exists>s t. select_segments df choice1 choice2 = Inr (Some s, Some t)"
proof -
  let ?segs = "sort (unique (map segment df))"
  from assms have "0 < length ?segs" and "1 < length ?segs" by linarith+
  then obtain s t where "selectbox ?segs 0 choice1 = Inr (Some s)"
      and "selectbox ?segs 1 choice2 = Inr (Some t)"
    using selectbox_in_range by meson
  then show ?thesis
    by (simp add: select_segments_def)
qed

lemma select_segments_one_flight:
  "select_segments one_flight_table choice1 choice2 = Inl StreamlitAPIException"
  by (cases choice1)
    (simp_all add: select_segments_def selectbox_def one_flight_table_def row_def)

lemma same_selection_warns:
  assumes "select_segments df choice1 choice2 = Inr (s, s)"
  shows "compare_segments df choice1 choice2 =
     ([Header ''Compare Two Segments'', Warning ''Please select two different segments.''], None)"
    and "filter is_result (fst (compare_segments df choice1 choice2)) = []"
  using assms by (simp_all add: compare_segments_def)

text \<open>
  Claim C2. The guard of the page answers two equal selections with the warning and
  renders no result (\<open>same_selection_warns\<close>), and on a table of two or more segments
  both selectors are built (\<open>select_segments_two\<close>). On a table of one segment the
  page does not reach the guard: the second selector is built with index 1 on a list
  of one option and raises. Whatever the user chooses, the page shows its header and
  the exception, and no warning.
\<close>

theorem compare_one_segment_raises:
  "compare_segments one_flight_table choice1 choice2 =
     ([Header ''Compare Two Segments''], Some StreamlitAPIException)"
  by (simp add: compare_segments_def select_segments_one_flight)


section \<open>Outliers in no-shows\<close>

text \<open>
  Claim C5, as amended. For every table in which all no-show counts are equal, the
  outlier query returns no row. When the table has at least two rows, the threshold
  mean + 2 * std is exactly the common count, and the strict comparison rejects every
  row. When it has one row or none, the threshold is NaN and not the common count.
\<close>

theorem outliers_constant_table:
  assumes "\<forall>r\<in>set df. no_shows r = c"
  shows "outliers df = []
     \<and> (2 \<le> length df \<longrightarrow> outlier_threshold df = Some (of_int c))
     \<and> (length df \<le> 1 \<longrightarrow> outlier_threshold df = None)"
proof (intro conjI impI)
  have col: "map (cell No_Shows) df = replicate (length df) (of_int c)"
    using assms by (rule constant_column)
  show thr: "outlier_threshold df = Some (of_int c)" if "2 \<le> length df"
  proof -
    from that have "0 < length df" by linarith
    with that show ?thesis
      by (simp add: outlier_threshold_def col series_mean_replicate series_std_replicate
          nan_add_def nan_mult_def del: cell.simps)
  qed
  show "outlier_threshold df = None" if "length df \<le> 1"
    using that by (rule outlier_threshold_short)
  show "outliers df = []"
  proof (cases "2 \<le> length df")
    case True
    then show ?thesis
      using assms by (simp add: outliers_def thr nan_gt_def filter_empty_conv)
  next
    case False
    then show ?thesis by (simp add: outliers_short)
  qed
qed

theorem outliers_constant_table_witness:
  "list_all (\<lambda>r. no_shows r = 3) constant_table
   \<and> 2 \<le> length constant_table
   \<and> outlier_threshold constant_table = Some 3
   \<and> outliers constant_table = []"
proof -
  have c: "\<forall>r\<in>set constant_table. no_shows r = 3"
    by (simp add: constant_table_def row_def)
  have l: "2 \<le> length constant_table"
    by (simp add: constant_table_def)
  from outliers_constant_table [OF c] l c show ?thesis
    by (simp add: list_all_iff)
qed

text \<open>
  The claim as the specification states it fails on a table of one flight with three
  no-shows: all counts are equal, yet the threshold is NaN, not 3.
\<close>

theorem threshold_not_constant_counterexample:
  "\<not> ((\<forall>r\<in>set one_flight_table. no_shows r = 3) \<longrightarrow>
        outliers one_flight_table = [] \<and> outlier_threshold one_flight_table = Some 3)"
  by (simp add: one_flight_table_def row_def outlier_threshold_short)

text \<open>
  Claim C10. For every table of exactly one row, the standard deviation of the
  no-shows is NaN, so the threshold is NaN, the strict comparison with it is false for
  every row, and the outlier query returns no row; it is a total function, so there is
  no failure.
\<close>

theorem outliers_single_row:
  "length df = 1 \<Longrightarrow>
     series_std (map (cell No_Shows) df) = None
     \<and> outlier_threshold df = None
     \<and> (\<forall>r. \<not> nan_gt (cell No_Shows r) (outlier_threshold df))
     \<and> outliers df = []"
  by (simp add: series_std_short outlier_threshold_short outliers_short nan_gt_None del: cell.simps)

theorem outliers_single_row_witness:
  "length one_flight_table = 1
   \<and> series_std (map (cell No_Shows) one_flight_table) = None
   \<and> outlier_threshold one_flight_table = None
   \<and> outliers one_flight_table = []"
proof -
  have l: "length one_flight_table = 1" by (simp add: one_flight_table_def)
  from outliers_single_row [OF l] l show ?thesis by simp
qed

text \<open>
  Claim C8. For every table with at least two rows, the standard deviation the outlier
  query takes of the no-shows is the sample standard deviation (denominator \<open>N - 1\<close>),
  and the threshold is the arithmetic mean plus twice that deviation.
\<close>

theorem outlier_threshold_sample_std:
  assumes "2 \<le> length df"
  defines "xs \<equiv> map (cell No_Shows) df"
  shows "series_std xs = Some (sample_standard_deviation xs)
     \<and> outlier_threshold df = Some (arithmetic_mean xs + 2 * sample_standard_deviation xs)"
proof -
  have n: "2 \<le> length xs" using assms by simp
  then have d: "real (length xs - 1) = real (length xs) - 1"
    by (simp add: of_nat_diff)
  have sq: "(\<Sum>v\<leftarrow>xs. (sum_list xs / real (length xs) - v)\<^sup>2)
          = (\<Sum>v\<leftarrow>xs. (v - sum_list xs / real (length xs))\<^sup>2)"
    by (simp add: power2_commute)
  have std: "series_std xs = Some (sample_standard_deviation xs)"
    using n by (simp add: series_std_def series_var_def sample_standard_deviation_def
        arithmetic_mean_def Let_def d sq)
  moreover have "series_mean xs = Some (arithmetic_mean xs)"
    using n by (auto simp: series_mean_def arithmetic_mean_def Let_def)
  ultimately show ?thesis
    by (simp add: outlier_threshold_def xs_def [symmetric] nan_add_def nan_mult_def)
qed

theorem outlier_threshold_sample_std_witness:
  "2 \<le> length spread_table
   \<and> map (cell No_Shows) spread_table = [0, 0, 0, 1, 1, 1, 11]
   \<and> outlier_threshold spread_table = Some 10
   \<and> map no_shows (outliers spread_table) = [11]"
proof -
  have l: "2 \<le> length spread_table" by (simp add: spread_table_def)
  have m: "arithmetic_mean [0, 0, 0, 1, 1, 1, 11] = 2"
    by (simp add: arithmetic_mean_def)
  have "sample_standard_deviation [0, 0, 0, 1, 1, 1, 11] = sqrt 16"
    by (simp add: sample_standard_deviation_def m)
  also have "\<dots> = 4" using real_sqrt_abs [of 4] by simp
  finally have s: "sample_standard_deviation [0, 0, 0, 1, 1, 1, 11] = 4" .
  have t: "outlier_threshold spread_table = Some 10"
    using outlier_threshold_sample_std [OF l] by (simp add: spread_column m s)
  have "map no_shows (outliers spread_table) = [11]"
    by (simp add: outliers_def t nan_gt_def) (simp add: spread_table_def row_def)
  with l t spread_column show ?thesis by simp
qed
section \<open>The no-shows of two segments on one date axis\<close>

lemma selectable:
  assumes "seg1 \<in> segment ` set df" and "seg2 \<in> segment ` set df" and "seg1 \<noteq> seg2"
  shows "\<exists>choice1 choice2. select_segments df choice1 choice2 = Inr (Some seg1, Some seg2)"
proof -
  let ?segs = "sort (unique (map segment df))"
  have "set ?segs = segment ` set df" by (simp add: set_unique)
  with assms obtain i j where i: "i < length ?segs" "?segs ! i = seg1"
      and j: "j < length ?segs" "?segs ! j = seg2"
    by (metis in_set_conv_nth)
  with assms(3) have "i \<noteq> j" by auto
  with i(1) j(1) have l: "0 < length ?segs" "1 < length ?segs" by linarith+
  have sb: "k < length segs \<Longrightarrow> n < length segs \<Longrightarrow>
      selectbox segs k (Some n) = Inr (Some (segs ! n))" for segs k n
    by (cases segs) (simp_all add: selectbox_def)
  have "selectbox ?segs 0 (Some i) = Inr (Some seg1)"
    using sb [OF l(1) i(1)] i(2) by simp
  moreover have "selectbox ?segs 1 (Some j) = Inr (Some seg2)"
    using sb [OF l(2) j(1)] j(2) by simp
  ultimately have "select_segments df (Some i) (Some j) = Inr (Some seg1, Some seg2)"
    by (simp add: select_segments_def)
  then show ?thesis by blast
qed

text \<open>
  Claim C3. For every table and every two distinct segments, the frame of the no-shows
  comparison chart, which the page renders whenever the two are selected (and any two
  distinct segments of the table can be selected), has as its date axis the departure
  dates of the rows of either segment, each once, in ascending order. Both columns run
  over that axis: at each date a column holds the segment's total of no-shows on that
  date when the segment has a row on it, and 0 when it has none. No date is dropped.
\<close>

theorem compare_df_aligned:
  fixes df :: frame and seg1 seg2 :: string
  assumes "seg1 \<noteq> seg2"
  defines "df1 \<equiv> filter (\<lambda>r. segment r = seg1) df"
    and "df2 \<equiv> filter (\<lambda>r. segment r = seg2) df"
  defines "day_total \<equiv> (\<lambda>dfi d. if d \<in> departure_date ` set dfi
      then series_sum No_Shows (filter (\<lambda>r. departure_date r = d) dfi) else 0)"
  shows "(\<forall>choice1 choice2.
            select_segments df choice1 choice2 = Inr (Some seg1, Some seg2) \<longrightarrow>
            snd (compare_segments df choice1 choice2) = None
            \<and> Line_Chart (compare_df df1 df2) \<in> set (fst (compare_segments df choice1 choice2)))
     \<and> (seg1 \<in> segment ` set df \<and> seg2 \<in> segment ` set df \<longrightarrow>
          (\<exists>choice1 choice2. select_segments df choice1 choice2 = Inr (Some seg1, Some seg2)))
     \<and> date_index (compare_df df1 df2)
        = sorted_list_of_set (departure_date ` set df1 \<union> departure_date ` set df2)
     \<and> first_column (compare_df df1 df2) = map (day_total df1) (date_index (compare_df df1 df2))
     \<and> second_column (compare_df df1 df2) = map (day_total df2) (date_index (compare_df df1 df2))"
proof (intro conjI allI impI)
  fix choice1 choice2
  assume s: "select_segments df choice1 choice2 = Inr (Some seg1, Some seg2)"
  show "snd (compare_segments df choice1 choice2) = None"
    using assms(1) by (simp add: compare_segments_def s Let_def)
  show "Line_Chart (compare_df df1 df2) \<in> set (fst (compare_segments df choice1 choice2))"
    using assms(1) by (simp add: compare_segments_def s df1_def df2_def Let_def)
next
  assume "seg1 \<in> segment ` set df \<and> seg2 \<in> segment ` set df"
  then show "\<exists>choice1 choice2. select_segments df choice1 choice2 = Inr (Some seg1, Some seg2)"
    using assms(1) selectable by blast
next
  have k: "sorted (sort (unique (map departure_date dfi)))"
      "distinct (sort (unique (map departure_date dfi)))" for dfi :: frame
    by (simp_all add: distinct_unique)
  show "date_index (compare_df df1 df2)
        = sorted_list_of_set (departure_date ` set df1 \<union> departure_date ` set df2)"
  proof -
    have "union_indexes (sort (unique (map departure_date df1)))
            (sort (unique (map departure_date df2)))
        = sorted_list_of_set (set (sort (unique (map departure_date df1)))
            \<union> set (sort (unique (map departure_date df2))))"
      by (rule union_indexes_sorted) (rule k)+
    then show ?thesis
      by (simp add: compare_df_def Let_def keys_groupby set_unique)
  qed
  show "first_column (compare_df df1 df2) = map (day_total df1) (date_index (compare_df df1 df2))"
    by (simp add: compare_df_def Let_def fillna_def reindex_def map_of_groupby day_total_def)
  show "second_column (compare_df df1 df2) = map (day_total df2) (date_index (compare_df df1 df2))"
    by (simp add: compare_df_def Let_def fillna_def reindex_def map_of_groupby day_total_def)
qed

text \<open>
  The scenario of the specification: the first segment flies on days 1 and 2, the
  second on days 2 and 3; the axis is days 1, 2, 3, with 0 for the first segment on
  day 3 and for the second on day 1. The two segments are the ones the page selects
  before the user chooses.
\<close>

theorem compare_df_aligned_witness:
  "''SEG-A'' \<noteq> ''SEG-B''
   \<and> select_segments overlap_table None None = Inr (Some ''SEG-A'', Some ''SEG-B'')
   \<and> snd (compare_segments overlap_table None None) = None
   \<and> Line_Chart (compare_df (filter (\<lambda>r. segment r = ''SEG-A'') overlap_table)
                            (filter (\<lambda>r. segment r = ''SEG-B'') overlap_table))
       \<in> set (fst (compare_segments overlap_table None None))
   \<and> compare_df (filter (\<lambda>r. segment r = ''SEG-A'') overlap_table)
                 (filter (\<lambda>r. segment r = ''SEG-B'') overlap_table)
       = \<lparr>date_index = [1 * ns_per_day, 2 * ns_per_day, 3 * ns_per_day],
          first_column = [1, 5, 0], second_column = [0, 4, 5]\<rparr>"
proof -
  have n: "''SEG-A'' \<noteq> ''SEG-B''" by simp
  have s: "select_segments overlap_table None None = Inr (Some ''SEG-A'', Some ''SEG-B'')"
    by (simp add: select_segments_def selectbox_def overlap_table_def row_def)
  from compare_df_aligned [OF n, of overlap_table] s
  have "snd (compare_segments overlap_table None None) = None
      \<and> Line_Chart (compare_df (filter (\<lambda>r. segment r = ''SEG-A'') overlap_table)
                            (filter (\<lambda>r. segment r = ''SEG-B'') overlap_table))
       \<in> set (fst (compare_segments overlap_table None None))"
    by blast
  with n s overlap_compare_value show ?thesis by blast
qed

section \<open>The top five by sum\<close>

text \<open>
  Claim C4, as amended. For every table and every argsort kernel that meets its
  contract, the top five segments by flown load and the top five dates by total
  booked are each: in non-increasing order of the summed metric (equal sums may stand
  next to each other); of length the smaller of 5 and the number of distinct groups;
  made of pairwise distinct groups of the table with their sums; such that no group
  left out has a larger sum than a group kept. The order among groups of equal sums
  is the kernel's and is not promised.
\<close>

theorem top_n_by_sum:
  assumes "argsort_ok argsort"
  shows "(sorted_wrt (\<lambda>a b. snd b \<le> snd a) (top_segments argsort df)
        \<and> length (top_segments argsort df) = min 5 (card (segment ` set df))
        \<and> distinct (map fst (top_segments argsort df))
        \<and> set (top_segments argsort df) \<subseteq> set (groupby segment (series_sum Flown_Load) df)
        \<and> (\<forall>g\<in>set (groupby segment (series_sum Flown_Load) df) - set (top_segments argsort df).
             \<forall>t\<in>set (top_segments argsort df). snd g \<le> snd t))
     \<and> (sorted_wrt (\<lambda>a b. snd b \<le> snd a) (top_dates argsort df)
        \<and> length (top_dates argsort df) = min 5 (card (departure_date ` set df))
        \<and> distinct (map fst (top_dates argsort df))
        \<and> set (top_dates argsort df) \<subseteq> set (groupby departure_date (series_sum Total_Booked) df)
        \<and> (\<forall>g\<in>set (groupby departure_date (series_sum Total_Booked) df) - set (top_dates argsort df).
             \<forall>t\<in>set (top_dates argsort df). snd g \<le> snd t))"
  unfolding top_segments_def top_dates_def
  by (intro conjI top_n_props [OF assms])

theorem top_n_by_sum_witness:
  "argsort_ok insertion_argsort
   \<and> top_segments insertion_argsort tie_table = [(''SEG-C'', 7), (''SEG-A'', 5), (''SEG-B'', 5)]
   \<and> card (segment ` set six_segment_table) = 6
   \<and> length (top_segments insertion_argsort six_segment_table) = 5
   \<and> distinct (map fst (top_segments insertion_argsort six_segment_table))"
proof -
  have c: "card (segment ` set six_segment_table) = 6"
    by (simp add: six_segment_table_def row_def card_insert_if)
  from top_n_by_sum [OF insertion_argsort_ok, of six_segment_table]
  have "length (top_segments insertion_argsort six_segment_table) = 5"
    and "distinct (map fst (top_segments insertion_argsort six_segment_table))"
    by (simp_all add: c)
  with c insertion_argsort_ok tie_top_segments
  show ?thesis by simp
qed

text \<open>
  The claim as the specification states it asks for a strictly descending order, with
  equal sums in the order of the grouping. Four segments fly 6, 5, 7 and 7. With a
  kernel that meets the contract and is not stable, the two segments of sum 7 stand
  next to each other, so the order is not strict, and the later segment of the
  grouping stands first.
\<close>

theorem top_n_ties_counterexample:
  "argsort_ok unstable_argsort
   \<and> top_segments unstable_argsort tied_table
       = [(''S03'', 7), (''S02'', 7), (''S00'', 6), (''S01'', 5)]
   \<and> \<not> sorted_wrt (\<lambda>a b. snd b < snd a) (top_segments unstable_argsort tied_table)
   \<and> \<not> sorted_wrt (\<lambda>a b. snd a = snd b \<longrightarrow> fst a < fst b)
          (top_segments unstable_argsort tied_table)"
  by (simp add: unstable_argsort_ok tied_top_segments)

section \<open>The correlation matrix\<close>

lemma pearson_commute:
  assumes "length xs = length ys"
  shows "pearson xs ys = pearson ys xs"
proof -
  have "zip xs ys = map (\<lambda>(y, x). (x, y)) (zip ys xs)"
    by (rule zip_commute)
  then have "(\<Sum>(x, y)\<leftarrow>zip xs ys. (x - a) * (y - b)) = (\<Sum>(y, x)\<leftarrow>zip ys xs. (y - b) * (x - a))"
      for a b :: real
    by (simp add: comp_def case_prod_unfold mult.commute)
  then show ?thesis
    using assms by (simp add: pearson_def Let_def mult.commute)
qed

lemma pearson_self:
  assumes "(\<Sum>x\<leftarrow>xs. (x - sum_list xs / real (length xs))\<^sup>2) \<noteq> 0"
  shows "pearson xs xs = Some 1"
proof -
  let ?m = "sum_list xs / real (length xs)"
  let ?s = "\<Sum>x\<leftarrow>xs. (x - ?m)\<^sup>2"
  from assms have ne: "xs \<noteq> []" by auto
  have "zip xs xs = map (\<lambda>x. (x, x)) xs"
    by (rule zip_same_conv_map)
  then have cov: "(\<Sum>(x, y)\<leftarrow>zip xs xs. (x - ?m) * (y - ?m)) = ?s"
    by (simp add: comp_def power2_eq_square)
  have "0 \<le> ?s" by (rule sum_list_nonneg) auto
  then have "sqrt (?s * ?s) = ?s" by simp
  with assms cov ne show ?thesis
    by (simp add: pearson_def Let_def)
qed

lemma nonzero_variance:
  assumes "series_var 1 xs = Some v" and "v \<noteq> 0"
  shows "(\<Sum>x\<leftarrow>xs. (x - sum_list xs / real (length xs))\<^sup>2) \<noteq> 0"
proof -
  have "(\<Sum>x\<leftarrow>xs. (sum_list xs / real (length xs) - x)\<^sup>2)
      = (\<Sum>x\<leftarrow>xs. (x - sum_list xs / real (length xs))\<^sup>2)"
    by (simp add: power2_commute)
  with assms show ?thesis
    by (auto simp: series_var_def Let_def split: if_splits)
qed

lemma corr_entry:
  assumes "i < length numeric_columns" and "j < length numeric_columns"
  shows "corr df ! i ! j
     = pearson (map (cell (numeric_columns ! i)) df) (map (cell (numeric_columns ! j)) df)"
  using assms by (simp add: corr_def)

text \<open>
  Claim C6. For every table, the correlation matrix has one row and one column per
  numeric column and is symmetric, and the diagonal entry of every numeric column
  whose variance is defined and not zero (which takes two rows at least) is 1. The
  arithmetic of the model is exact, so the entry is 1 itself.
\<close>

theorem corr_symmetric_unit_diagonal:
  "length (corr df) = length numeric_columns
   \<and> (\<forall>row\<in>set (corr df). length row = length numeric_columns)
   \<and> (\<forall>i<length numeric_columns. \<forall>j<length numeric_columns.
         corr df ! i ! j = corr df ! j ! i)
   \<and> (\<forall>i<length numeric_columns.
         (\<exists>v. series_var 1 (map (cell (numeric_columns ! i)) df) = Some v \<and> v \<noteq> 0) \<longrightarrow>
         corr df ! i ! i = Some 1)"
proof (intro conjI allI impI ballI)
  show "length (corr df) = length numeric_columns"
    by (simp add: corr_def)
  show "length row = length numeric_columns" if "row \<in> set (corr df)" for row
    using that by (auto simp: corr_def)
  show "corr df ! i ! j = corr df ! j ! i"
    if "i < length numeric_columns" and "j < length numeric_columns" for i j
    using that by (simp add: corr_entry pearson_commute)
  show "corr df ! i ! i = Some 1"
    if "i < length numeric_columns"
      and "\<exists>v. series_var 1 (map (cell (numeric_columns ! i)) df) = Some v \<and> v \<noteq> 0" for i
  proof -
    from that(2) obtain v
      where "series_var 1 (map (cell (numeric_columns ! i)) df) = Some v" and "v \<noteq> 0"
      by blast
    then have "pearson (map (cell (numeric_columns ! i)) df) (map (cell (numeric_columns ! i)) df)
        = Some 1"
      by (intro pearson_self nonzero_variance)
    with that(1) show ?thesis by (simp add: corr_entry)
  qed
qed

lemma two_day_variances:
  "series_var 1 (map (cell (numeric_columns ! 0)) two_day_table) = Some (7 / 3)"
  "series_var 1 (map (cell (numeric_columns ! 1)) two_day_table) = Some (1 / 3)"
  "series_var 1 (map (cell (numeric_columns ! 2)) two_day_table) = Some (13 / 3)"
  "series_var 1 (map (cell (numeric_columns ! 3)) two_day_table) = Some 1"
  "series_var 1 (map (cell (numeric_columns ! 4)) two_day_table) = Some (13 / 3)"
  "series_var 1 (map (cell (numeric_columns ! 5)) two_day_table) = Some (13 / 3)"
  by (simp_all add: numeric_columns_def two_day_table_def row_def series_var_def Let_def
      power2_eq_square)

theorem corr_symmetric_unit_diagonal_witness:
  "length numeric_columns = 6
   \<and> series_var 1 (map (cell (numeric_columns ! 3)) two_day_table) = Some 1
   \<and> map (\<lambda>i. corr two_day_table ! i ! i) [0, 1, 2, 3, 4, 5] = replicate 6 (Some 1)
   \<and> corr two_day_table ! 0 ! 3 = corr two_day_table ! 3 ! 0"
proof -
  have l: "length numeric_columns = 6" by (simp add: numeric_columns_def)
  note t = corr_symmetric_unit_diagonal [of two_day_table]
  from t have d: "i < 6 \<Longrightarrow>
      series_var 1 (map (cell (numeric_columns ! i)) two_day_table) = Some v \<Longrightarrow> v \<noteq> 0 \<Longrightarrow>
      corr two_day_table ! i ! i = Some 1" for i v
    unfolding l by blast
  from t have s: "corr two_day_table ! 0 ! 3 = corr two_day_table ! 3 ! 0"
    by (simp add: l)
  have "corr two_day_table ! 0 ! 0 = Some 1"
    by (rule d [OF _ two_day_variances(1)]) simp_all
  moreover have "corr two_day_table ! 1 ! 1 = Some 1"
    by (rule d [OF _ two_day_variances(2)]) simp_all
  moreover have "corr two_day_table ! 2 ! 2 = Some 1"
    by (rule d [OF _ two_day_variances(3)]) simp_all
  moreover have "corr two_day_table ! 3 ! 3 = Some 1"
    by (rule d [OF _ two_day_variances(4)]) simp_all
  moreover have "corr two_day_table ! 4 ! 4 = Some 1"
    by (rule d [OF _ two_day_variances(5)]) simp_all
  moreover have "corr two_day_table ! 5 ! 5 = Some 1"
    by (rule d [OF _ two_day_variances(6)]) simp_all
  ultimately show ?thesis
    using l s two_day_variances(4) by (simp add: numeral_eq_Suc)
qed


end
